theory Spec2Isabelle
  imports Main "HOL-Library.Word"
begin

unbundle bit_operations_syntax

section \<open>Data model of dna.c\<close>

text \<open>
  Text (FASTA input, decoded output, C strings) is a \<open>string\<close>; the binary container is a
  list of bytes. A C string argument is the list of its characters before the terminating
  NUL, so it holds no NUL itself.
\<close>

type_synonym byte = "8 word"

definition byte_of_char :: "char \<Rightarrow> byte" where
  "byte_of_char c = of_nat (of_char c)"

definition char_of_byte :: "byte \<Rightarrow> char" where
  "char_of_byte b = char_of (unat b)"

text \<open>
  The ways a run ends other than by returning: the three \<open>exit(EXIT_FAILURE)\<close> calls of
  dna.c (\<open>Invalid base\<close>, \<open>Invalid bits\<close>, \<open>Invalid .seq signature\<close>), the exit when
  \<open>fopen\<close> cannot create an output file, and undefined behaviour of C (overflow of an
  \<open>int\<close> counter, a write past an allocation).
  The environment: \<open>write_seq_file\<close> and \<open>decode_seq_to_fasta\<close> are modelled for files
  that \<open>fopen\<close> has opened; the scanner, which names its output files itself, takes as
  a parameter which names \<open>fopen\<close> can create. Every allocation succeeds.
\<close>

datatype failure =
  InvalidBase char | InvalidBits byte | InvalidSignature | CannotOpen string | UndefinedBehaviour

text \<open>dna.h\<close>

definition SEQ_SIGNATURE :: "byte list" where
  "SEQ_SIGNATURE = [0x53, 0x45, 0x51, 0x01]"

definition VERSION :: byte where
  "VERSION = 0x01"

definition TYPE_DNA :: byte where
  "TYPE_DNA = 1"

definition TYPE_RNA :: byte where
  "TYPE_RNA = 2"

text \<open>\<open>INT_MAX\<close> of a 32-bit \<open>int\<close>.\<close>

definition INT_MAX :: nat where
  "INT_MAX = 2147483647"

text \<open>
  \<open>toupper\<close> of the C library in the "C" locale (the program never calls \<open>setlocale\<close>):
  the letters a to z move to A to Z, every other character is unchanged.
\<close>

definition toupper :: "char \<Rightarrow> char" where
  "toupper c = (let n = (of_char c :: nat) in if 97 \<le> n \<and> n \<le> 122 then char_of (n - 32) else c)"

text \<open>
  \<open>fwrite(&x, sizeof x, 1, out)\<close> and \<open>fread(&x, sizeof x, 1, in)\<close> of a multi-byte
  integer use the machine's byte order; the model fixes little-endian (x86-64, AArch64).
\<close>

fun le_bytes :: "nat \<Rightarrow> nat \<Rightarrow> byte list" where
  "le_bytes 0 n = []"
| "le_bytes (Suc k) n = of_nat n # le_bytes k (n div 256)"

fun le_value :: "byte list \<Rightarrow> nat" where
  "le_value [] = 0"
| "le_value (b # bs) = unat b + 256 * le_value bs"

definition le32 :: "32 word \<Rightarrow> byte list" where
  "le32 w = le_bytes 4 (unat w)"

definition le64 :: "64 word \<Rightarrow> byte list" where
  "le64 w = le_bytes 8 (unat w)"

section \<open>Base codec\<close>

text \<open>\<open>base_to_bits\<close>, dna.c 23-33: the \<open>default\<close> branch prints and exits.\<close>

definition base_to_bits :: "char \<Rightarrow> failure + byte" where
  "base_to_bits base =
     (if base = CHR ''A'' then Inr 0
      else if base = CHR ''C'' then Inr 1
      else if base = CHR ''G'' then Inr 2
      else if base = CHR ''T'' \<or> base = CHR ''U'' then Inr 3
      else Inl (InvalidBase base))"

text \<open>\<open>bits_to_base\<close>, dna.c 172-182: a switch on \<open>bits & 0b11\<close>, with a \<open>default\<close> that exits.\<close>

definition bits_to_base :: "byte \<Rightarrow> byte \<Rightarrow> failure + char" where
  "bits_to_base bits type =
     (let sel = bits AND 3 in
      if sel = 0 then Inr CHR ''A''
      else if sel = 1 then Inr CHR ''C''
      else if sel = 2 then Inr CHR ''G''
      else if sel = 3 then Inr (if type = TYPE_RNA then CHR ''U'' else CHR ''T'')
      else Inl (InvalidBits bits))"

section \<open>Sequence type detector\<close>

text \<open>
  \<open>detect_rna\<close>, dna.c 40-45. The index \<open>i\<close> is an \<open>int\<close>: \<open>i++\<close> at \<open>INT_MAX\<close> is
  undefined.
\<close>

fun detect_rna_loop :: "nat \<Rightarrow> string \<Rightarrow> failure + bool" where
  "detect_rna_loop i [] = Inr False"
| "detect_rna_loop i (c # cs) =
     (if toupper c = CHR ''U'' then Inr True
      else if i = INT_MAX then Inl UndefinedBehaviour
      else detect_rna_loop (Suc i) cs)"

definition detect_rna :: "string \<Rightarrow> failure + bool" where
  "detect_rna seq = detect_rna_loop 0 seq"

section \<open>Binary writer\<close>

text \<open>
  The normalisation loop of \<open>write_seq_file\<close>, dna.c 66-73. \<open>i\<close> and \<open>j\<close> are \<open>int\<close>s;
  \<open>j \<le> i\<close> throughout, so \<open>i++\<close> is the increment that can overflow. \<open>cleaned\<close> is the
  part of the buffer written so far (\<open>j\<close> is its length).
\<close>

fun clean_loop :: "nat \<Rightarrow> string \<Rightarrow> string \<Rightarrow> failure + string" where
  "clean_loop i cleaned [] = Inr cleaned"
| "clean_loop i cleaned (s # ss) =
     (let c = toupper s;
          cleaned' =
            (if c = CHR ''A'' \<or> c = CHR ''C'' \<or> c = CHR ''G'' \<or> c = CHR ''T'' \<or> c = CHR ''U''
             then cleaned @ [if c = CHR ''U'' then CHR ''T'' else c]
             else cleaned)
      in if i = INT_MAX then Inl UndefinedBehaviour else clean_loop (Suc i) cleaned' ss)"

text \<open>
  The packing loop, dna.c 92-103, over the bases \<open>cleaned[0 .. seq_len)\<close>. The state is
  \<open>buffer\<close>, \<open>bits\<close> and the bytes written to the file by the loop so far.
\<close>

fun pack_loop :: "byte \<Rightarrow> nat \<Rightarrow> byte list \<Rightarrow> string \<Rightarrow> failure + (byte \<times> nat \<times> byte list)" where
  "pack_loop buffer bits out [] = Inr (buffer, bits, out)"
| "pack_loop buffer bits out (c # cs) =
     (case base_to_bits c of
        Inl e \<Rightarrow> Inl e
      | Inr code \<Rightarrow>
          (let buffer' = push_bit 2 buffer OR code; bits' = bits + 2
           in if bits' = 8 then pack_loop 0 0 (out @ [buffer']) cs
              else pack_loop buffer' bits' out cs))"

text \<open>
  \<open>write_seq_file\<close>, dna.c 53-111. The result is the name of the file created and its
  contents. \<open>snprintf\<close> cuts the name to the 255 characters that fit \<open>filename[256]\<close>;
  \<open>meta_len\<close> is \<open>strlen(desc)\<close> cut to 32 bits, and \<open>fwrite\<close> writes that many bytes of
  \<open>desc\<close>.
\<close>

definition write_seq_file :: "string \<Rightarrow> string \<Rightarrow> string \<Rightarrow> failure + (string \<times> byte list)" where
  "write_seq_file ident desc seq =
     (let filename = take 255 (ident @ ''.seq'') in
      case clean_loop 0 [] seq of
        Inl e \<Rightarrow> Inl e
      | Inr cleaned \<Rightarrow>
          (let seq_len = (of_nat (length cleaned) :: 64 word);
               meta_len = (of_nat (length desc) :: 32 word)
           in case detect_rna seq of
                Inl e \<Rightarrow> Inl e
              | Inr rna \<Rightarrow>
                  (let type = (if rna then TYPE_RNA else TYPE_DNA);
                       header = SEQ_SIGNATURE @ [VERSION] @ le32 meta_len
                                @ map byte_of_char (take (unat meta_len) desc)
                                @ [type] @ le64 seq_len
                   in case pack_loop 0 0 [] (take (unat seq_len) cleaned) of
                        Inl e \<Rightarrow> Inl e
                      | Inr (buffer, bits, out) \<Rightarrow>
                          Inr (filename,
                               header @ out
                               @ (if bits > 0 then [push_bit (8 - bits) buffer] else [])))))"

section \<open>Binary reader\<close>

text \<open>
  The decoder never looks at what \<open>fread\<close> returns (but in the payload loop), so on a short
  file it goes on with whatever its variables and the block from \<open>malloc\<close> held before;
  a multi-byte field read in part is indeterminate as well. Those indeterminate contents
  are a parameter of the model.
\<close>

record indeterminate =
  ind_version :: byte
  ind_meta_len :: "32 word"
  ind_meta :: "nat \<Rightarrow> byte"
  ind_type :: byte
  ind_seqlen :: "64 word"

text \<open>One instance: memory that held zeros.\<close>

definition zeroed :: indeterminate where
  "zeroed = \<lparr>ind_version = 0, ind_meta_len = 0, ind_meta = (\<lambda>_. 0), ind_type = 0, ind_seqlen = 0\<rparr>"

text \<open>\<open>fread(buf, 1, n, in)\<close>: the bytes read (at most \<open>n\<close>) and the rest of the file.\<close>

definition fread :: "nat \<Rightarrow> byte list \<Rightarrow> byte list \<times> byte list" where
  "fread n inp = (take n inp, drop n inp)"

text \<open>
  The inner loop of dna.c 230-235, over the shifts 6, 4, 2, 0 still to do.
  \<open>bases_written\<close> is an \<open>int\<close>: \<open>bases_written++\<close> at \<open>INT_MAX\<close> is undefined. It is never
  negative, so the comparison with the unsigned \<open>seqlen\<close> is the one of the numbers.
\<close>

fun emit_loop :: "byte \<Rightarrow> byte \<Rightarrow> nat \<Rightarrow> nat list \<Rightarrow> nat \<Rightarrow> string \<Rightarrow> failure + (nat \<times> string)" where
  "emit_loop byte type seqlen [] bases_written out = Inr (bases_written, out)"
| "emit_loop byte type seqlen (shift # shifts) bases_written out =
     (if bases_written < seqlen then
        (case bits_to_base (drop_bit shift byte AND 3) type of
           Inl e \<Rightarrow> Inl e
         | Inr base \<Rightarrow>
             if bases_written = INT_MAX then Inl UndefinedBehaviour
             else
               (let bases_written' = bases_written + 1;
                    out' = out @ [base] @ (if bases_written' mod 60 = 0 then [CHR 0x0A] else [])
                in emit_loop byte type seqlen shifts bases_written' out'))
      else Inr (bases_written, out))"

text \<open>
  The outer loop, dna.c 229-236, over the rest of the file: a byte is read first and the
  count is compared second.
\<close>

fun payload_loop :: "byte \<Rightarrow> nat \<Rightarrow> byte list \<Rightarrow> nat \<Rightarrow> string \<Rightarrow> failure + (nat \<times> string)" where
  "payload_loop type seqlen [] bases_written out = Inr (bases_written, out)"
| "payload_loop type seqlen (byte # inp) bases_written out =
     (if bases_written < seqlen then
        (case emit_loop byte type seqlen [6, 4, 2, 0] bases_written out of
           Inl e \<Rightarrow> Inl e
         | Inr (bases_written', out') \<Rightarrow> payload_loop type seqlen inp bases_written' out')
      else Inr (bases_written, out))"

text \<open>
  \<open>decode_seq_to_fasta\<close>, dna.c 189-242: the result is the text written to the output file.
  \<open>signature\<close> starts as zeros, so a file shorter than four bytes fails the comparison.
  \<open>malloc(meta_len + 1)\<close> is computed in 32 bits: for \<open>meta_len = 0xFFFFFFFF\<close> the block
  has size 0 and \<open>meta[meta_len] = '\0'\<close> writes outside it. \<open>fprintf("%s\n", meta)\<close>
  prints \<open>meta\<close> up to its first NUL.
\<close>

definition decode_seq_to_fasta :: "indeterminate \<Rightarrow> byte list \<Rightarrow> failure + string" where
  "decode_seq_to_fasta ind inp =
     (let (sig, in1) = fread 4 inp;
          signature = sig @ replicate (4 - length sig) 0
      in if signature \<noteq> SEQ_SIGNATURE then Inl InvalidSignature
         else
           (let (vb, in2) = fread 1 in1;
                version = (if length vb = 1 then hd vb else ind_version ind);
                (mb, in3) = fread 4 in2;
                meta_len = (if length mb = 4 then of_nat (le_value mb) else ind_meta_len ind)
            in if meta_len + 1 = 0 then Inl UndefinedBehaviour
               else
                 (let (md, in4) = fread (unat meta_len) in3;
                      meta = md @ map (ind_meta ind) [length md ..< unat meta_len];
                      (tb, in5) = fread 1 in4;
                      type = (if length tb = 1 then hd tb else ind_type ind);
                      (sb, in6) = fread 8 in5;
                      seqlen = (if length sb = 8 then of_nat (le_value sb) else ind_seqlen ind);
                      out = map char_of_byte (takeWhile (\<lambda>b. b \<noteq> 0) meta) @ [CHR 0x0A]
                  in case payload_loop type (unat seqlen) in6 0 out of
                       Inl e \<Rightarrow> Inl e
                     | Inr (bases_written, out') \<Rightarrow>
                         Inr (out' @ (if bases_written mod 60 \<noteq> 0 then [CHR 0x0A] else [])))))"

section \<open>FASTA scanner\<close>

text \<open>
  \<open>fgets(line, size, in)\<close>: nothing at end of file; otherwise the characters up to and
  with the first newline, and at most \<open>size - 1\<close> of them, and the rest of the file.
\<close>

definition fgets :: "nat \<Rightarrow> string \<Rightarrow> (string \<times> string) option" where
  "fgets sz inp =
     (if inp = [] then None
      else
        (let before = takeWhile (\<lambda>c. c \<noteq> CHR 0x0A) inp;
             n = (if length before < sz - 1 then length before + 1 else sz - 1)
         in Some (take n inp, drop n inp)))"

text \<open>
  What the string functions see of a buffer filled by \<open>fgets\<close>: the characters before the
  first NUL (a text file can hold one).
\<close>

definition c_string :: "string \<Rightarrow> string" where
  "c_string buf = takeWhile (\<lambda>c. c \<noteq> CHR 0x00) buf"

definition is_eol :: "char \<Rightarrow> bool" where
  "is_eol c \<longleftrightarrow> c = CHR 0x0A \<or> c = CHR 0x0D"

text \<open>
  The state of the loop of \<open>parse_fasta\<close>. A pointer is \<open>None\<close> when it is \<open>NULL\<close>.
  \<open>sc_seq\<close> holds \<open>seq[0 .. seqlen)\<close>, so \<open>seqlen\<close> is its length (0 for \<open>NULL\<close>).
  \<open>sc_written\<close> lists the files created so far, oldest first, each with its name and
  contents.
\<close>

record scanner =
  sc_id :: "string option"
  sc_desc :: "string option"
  sc_seq :: "string option"
  sc_seqcap :: nat
  sc_written :: "(string \<times> byte list) list"

definition seqlen_of :: "scanner \<Rightarrow> nat" where
  "seqlen_of st = (case sc_seq st of None \<Rightarrow> 0 | Some s \<Rightarrow> length s)"

text \<open>The name that \<open>write_seq_file\<close> gives to \<open>fopen\<close>, dna.c 54-57.\<close>

definition seq_filename :: "string \<Rightarrow> string" where
  "seq_filename ident = take 255 (ident @ ''.seq'')"

text \<open>
  The guarded flush, dna.c 129-136. The flush after the loop, dna.c 155-159, is the same
  guard and the same call; nothing reads the pointers after it. \<open>creatable\<close> tells the
  names that \<open>fopen(filename, "wb")\<close> can open: for any other name the call of
  \<open>write_seq_file\<close> ends the run at once, dna.c 57-61.
\<close>

definition flush_record :: "(string \<Rightarrow> bool) \<Rightarrow> scanner \<Rightarrow> failure + scanner" where
  "flush_record creatable st =
     (case (sc_id st, sc_desc st, sc_seq st) of
        (Some ident, Some desc, Some seq) \<Rightarrow>
          if \<not> creatable (seq_filename ident) then Inl (CannotOpen (seq_filename ident))
          else
            (case write_seq_file ident desc seq of
               Inl e \<Rightarrow> Inl e
             | Inr file \<Rightarrow>
                 Inr (st\<lparr>sc_id := None, sc_desc := None, sc_seq := None, sc_seqcap := 0,
                         sc_written := sc_written st @ [file]\<rparr>))
      | _ \<Rightarrow> Inr st)"

text \<open>
  The body of the loop, dna.c 128-152, for one buffer filled by \<open>fgets\<close>. In the branch of
  a sequence line, \<open>seq[seqlen++] = line[i]\<close> through a \<open>NULL\<close> pointer is undefined.
\<close>

definition scan_line :: "(string \<Rightarrow> bool) \<Rightarrow> scanner \<Rightarrow> string \<Rightarrow> failure + scanner" where
  "scan_line creatable st buf =
     (let line = c_string buf in
      if (case line of [] \<Rightarrow> False | c # _ \<Rightarrow> c = CHR ''>'') then
        (case flush_record creatable st of
           Inl e \<Rightarrow> Inl e
         | Inr st1 \<Rightarrow>
             (let desc = takeWhile (\<lambda>c. \<not> is_eol c) line;
                  ident = takeWhile (\<lambda>c. c \<noteq> CHR '' '') (tl desc)
              in Inr (st1\<lparr>sc_id := Some ident, sc_desc := Some desc\<rparr>)))
      else
        (let data = rev (dropWhile is_eol (rev line));
             need = seqlen_of st + length data + 1;
             st1 = (if need > sc_seqcap st
                    then st\<lparr>sc_seqcap := need * 2,
                            sc_seq := Some (case sc_seq st of None \<Rightarrow> [] | Some s \<Rightarrow> s)\<rparr>
                    else st)
         in if data = [] then Inr st1
            else (case sc_seq st1 of
                    None \<Rightarrow> Inl UndefinedBehaviour
                  | Some s \<Rightarrow> Inr (st1\<lparr>sc_seq := Some (s @ data)\<rparr>))))"

function parse_loop :: "(string \<Rightarrow> bool) \<Rightarrow> scanner \<Rightarrow> string \<Rightarrow> failure + scanner" where
  "parse_loop creatable st inp =
     (case fgets 4096 inp of
        None \<Rightarrow> Inr st
      | Some (buf, rest) \<Rightarrow>
          (case scan_line creatable st buf of
             Inl e \<Rightarrow> Inl e
           | Inr st' \<Rightarrow> parse_loop creatable st' rest))"
  by pat_completeness auto
termination
  by (relation "measure (\<lambda>(creatable, st, inp). length inp)")
     (auto simp add: fgets_def Let_def split: if_splits)



section \<open>The container format and the functions the properties are stated with\<close>

text \<open>
  The definitions of this section are not translations of code: they state the layout of
  the container and the results that the loops above are proved to compute.
\<close>

text \<open>The fields of a container after the signature, in file order.\<close>

record container =
  version :: byte
  meta_len :: "32 word"
  metadata :: "byte list"
  seq_type :: byte
  seq_len :: "64 word"
  payload :: "byte list"

definition container_bytes :: "container \<Rightarrow> byte list" where
  "container_bytes c =
     SEQ_SIGNATURE @ [version c] @ le32 (meta_len c) @ metadata c
     @ [seq_type c] @ le64 (seq_len c) @ payload c"

text \<open>The fields agree: \<open>meta_len\<close> bytes of metadata, and a payload of
  \<open>ceil(seq_len / 4)\<close> bytes.\<close>

definition well_formed :: "container \<Rightarrow> bool" where
  "well_formed c \<longleftrightarrow>
     length (metadata c) = unat (meta_len c) \<and> length (payload c) = (unat (seq_len c) + 3) div 4"

definition is_base :: "char \<Rightarrow> bool" where
  "is_base c \<longleftrightarrow> c = CHR ''A'' \<or> c = CHR ''C'' \<or> c = CHR ''G'' \<or> c = CHR ''T'' \<or> c = CHR ''U''"

text \<open>The cleaned sequence: uppercased, restricted to the five letters, U stored as T.\<close>

definition cleaned_sequence :: "string \<Rightarrow> string" where
  "cleaned_sequence seq =
     map (\<lambda>c. if c = CHR ''U'' then CHR ''T'' else c) (filter is_base (map toupper seq))"

definition contains_u :: "string \<Rightarrow> bool" where
  "contains_u seq \<longleftrightarrow> CHR ''u'' \<in> set seq \<or> CHR ''U'' \<in> set seq"

definition base_code :: "char \<Rightarrow> byte" where
  "base_code c =
     (if c = CHR ''A'' then 0 else if c = CHR ''C'' then 1 else if c = CHR ''G'' then 2 else 3)"

text \<open>Groups of four, the last one shorter when the length is no multiple of 4.\<close>

fun quads :: "'a list \<Rightarrow> 'a list list" where
  "quads (a # b # c # d # rest) = [a, b, c, d] # quads rest"
| "quads [] = []"
| "quads [a] = [[a]]"
| "quads [a, b] = [[a, b]]"
| "quads [a, b, c] = [[a, b, c]]"

text \<open>One payload byte: the first code in the two highest bits, zeros after the last.\<close>

fun pack_group :: "byte list \<Rightarrow> byte" where
  "pack_group [a, b, c, d] = push_bit 6 a OR push_bit 4 b OR push_bit 2 c OR d"
| "pack_group [a, b, c] = push_bit 6 a OR push_bit 4 b OR push_bit 2 c"
| "pack_group [a, b] = push_bit 6 a OR push_bit 4 b"
| "pack_group [a] = push_bit 6 a"
| "pack_group _ = 0"

definition packed_payload :: "string \<Rightarrow> byte list" where
  "packed_payload cleaned = map pack_group (quads (map base_code cleaned))"

text \<open>The container that \<open>write_seq_file\<close> writes, and the file it creates.\<close>

definition written_container :: "string \<Rightarrow> string \<Rightarrow> container" where
  "written_container desc seq =
     \<lparr>version = VERSION,
      meta_len = of_nat (length desc),
      metadata = map byte_of_char (take (unat (of_nat (length desc) :: 32 word)) desc),
      seq_type = (if contains_u seq then TYPE_RNA else TYPE_DNA),
      seq_len = of_nat (length (cleaned_sequence seq)),
      payload = packed_payload (cleaned_sequence seq)\<rparr>"

definition seq_file :: "string \<Rightarrow> string \<Rightarrow> string \<Rightarrow> string \<times> byte list" where
  "seq_file ident desc seq =
     (take 255 (ident @ ''.seq''), container_bytes (written_container desc seq))"

text \<open>The four codes of a payload byte, highest bits first, and the letter of a code.\<close>

definition unpack_byte :: "byte \<Rightarrow> byte list" where
  "unpack_byte b = [drop_bit 6 b AND 3, drop_bit 4 b AND 3, drop_bit 2 b AND 3, b AND 3]"

definition base_char :: "byte \<Rightarrow> byte \<Rightarrow> char" where
  "base_char type code =
     (if code = 0 then CHR ''A'' else if code = 1 then CHR ''C'' else if code = 2 then CHR ''G''
      else if type = TYPE_RNA then CHR ''U'' else CHR ''T'')"

definition payload_bases :: "byte \<Rightarrow> byte list \<Rightarrow> string" where
  "payload_bases type bytes = map (base_char type) (concat (map unpack_byte bytes))"

text \<open>Text in lines of 60 characters, each line ended by a newline, the last one too.\<close>

function wrap60 :: "string \<Rightarrow> string" where
  "wrap60 text = (if text = [] then [] else take 60 text @ [CHR 0x0A] @ wrap60 (drop 60 text))"
  by pat_completeness auto
termination
  by (relation "measure length") auto

text \<open>The text that the payload loop adds for the bases \<open>bs\<close> when \<open>n\<close> were written
  before.\<close>

fun emitted :: "nat \<Rightarrow> string \<Rightarrow> string" where
  "emitted n [] = []"
| "emitted n (b # bs) = b # (if Suc n mod 60 = 0 then [CHR 0x0A] else []) @ emitted (Suc n) bs"

text \<open>The header line printed for a metadata field.\<close>

definition header_text :: "byte list \<Rightarrow> string" where
  "header_text meta = map char_of_byte (takeWhile (\<lambda>b. b \<noteq> 0) meta)"

text \<open>The buffers that the calls of \<open>fgets\<close> return for a file: its lines, a line of more
  than 4095 characters in pieces.\<close>

function lines_of :: "string \<Rightarrow> string list" where
  "lines_of inp = (case fgets 4096 inp of None \<Rightarrow> [] | Some (buf, rest) \<Rightarrow> buf # lines_of rest)"
  by pat_completeness auto
termination
  by (relation "measure length")
     (auto simp add: fgets_def Let_def split: if_splits)


text \<open>The buffers in which \<open>fgets\<close> reads some lines, one after the other.\<close>

definition buffers :: "string list \<Rightarrow> string list" where
  "buffers ls = concat (map lines_of ls)"









definition has_lines :: "string \<times> string list \<Rightarrow> bool" where
  "has_lines r \<longleftrightarrow> snd r \<noteq> []"

text \<open>The lines before the first header line, put in front of the lines of the first
  record.\<close>

fun with_leading :: "string list \<Rightarrow> (string \<times> string list) list \<Rightarrow> (string \<times> string list) list" where
  "with_leading junk [] = []"
| "with_leading junk (r # rs) = (fst r, junk @ snd r) # rs"



section \<open>Properties\<close>

declare wrap60.simps [simp del] parse_loop.simps [simp del] lines_of.simps [simp del]

subsection \<open>Characters, bytes and integers\<close>

lemma char_of_byte_of_char [simp]: "char_of_byte (byte_of_char c) = c"
  by (simp add: char_of_byte_def byte_of_char_def unat_of_nat)

lemma byte_of_char_eq_0 [simp]: "byte_of_char c = 0 \<longleftrightarrow> c = CHR 0x00"
proof -
  have "unat (byte_of_char c) = of_char c"
    by (simp add: byte_of_char_def unat_of_nat)
  moreover have "(of_char c :: nat) = 0 \<longleftrightarrow> c = CHR 0x00"
    using of_char_eq_iff [of c "CHR 0x00", where ?'a = nat] by simp
  ultimately show ?thesis
    by (metis unat_eq_0)
qed

lemma toupper_U: "toupper c = CHR ''U'' \<longleftrightarrow> c = CHR ''u'' \<or> c = CHR ''U''"
proof -
  have n: "(of_char c :: nat) < 256" by simp
  have u: "c = CHR ''u'' \<longleftrightarrow> (of_char c :: nat) = 117"
    using of_char_eq_iff [of c "CHR ''u''", where ?'a = nat] by simp
  have U: "c = CHR ''U'' \<longleftrightarrow> (of_char c :: nat) = 85"
    using of_char_eq_iff [of c "CHR ''U''", where ?'a = nat] by simp
  have "toupper c = CHR ''U'' \<longleftrightarrow> (of_char c :: nat) = 117 \<or> (of_char c :: nat) = 85"
    unfolding toupper_def Let_def using n U
    by (auto simp add: char_of_eq_iff take_bit_eq_mod)
  then show ?thesis using u U by simp
qed

lemma length_le_bytes [simp]: "length (le_bytes k n) = k"
  by (induction k arbitrary: n) simp_all

lemma le_bytes_numeral:
  "le_bytes (numeral k) n = of_nat n # le_bytes (pred_numeral k) (n div 256)"
  by (simp only: numeral_eq_Suc le_bytes.simps)

lemma le_value_le_bytes: "n < 256 ^ k \<Longrightarrow> le_value (le_bytes k n) = n"
proof (induction k arbitrary: n)
  case 0
  then show ?case by simp
next
  case (Suc k)
  have "n div 256 < 256 ^ k"
    using Suc.prems by (simp add: less_mult_imp_div_less mult.commute)
  then have "le_value (le_bytes k (n div 256)) = n div 256"
    by (rule Suc.IH)
  then show ?case by (simp add: unat_of_nat)
qed

lemma length_le32 [simp]: "length (le32 w) = 4"
  by (simp add: le32_def)

lemma length_le64 [simp]: "length (le64 w) = 8"
  by (simp add: le64_def)

lemma le_value_le32 [simp]: "of_nat (le_value (le32 w)) = w"
proof -
  have "unat w < 256 ^ 4"
    using unsigned_less [of w, where ?'a = nat] by simp
  then show ?thesis
    by (simp add: le32_def le_value_le_bytes)
qed

lemma le_value_le64 [simp]: "of_nat (le_value (le64 w)) = w"
proof -
  have "unat w < 256 ^ 8"
    using unsigned_less [of w, where ?'a = nat] by simp
  then show ?thesis
    by (simp add: le64_def le_value_le_bytes)
qed

lemma and_3_cases: "(b :: byte) AND 3 = 0 \<or> b AND 3 = 1 \<or> b AND 3 = 2 \<or> b AND 3 = 3"
proof -
  have "unat (b AND 3) \<le> unat (3 :: byte)"
    by (rule word_and_le1 [THEN word_le_nat_alt [THEN iffD1]])
  then have "unat (b AND 3) = 0 \<or> unat (b AND 3) = 1 \<or> unat (b AND 3) = 2 \<or> unat (b AND 3) = 3"
    by auto
  then show ?thesis
    by (auto simp add: word_unat_eq_iff)
qed

subsection \<open>The loops of the writer\<close>

lemma clean_loop_eq:
  "i + length seq \<le> INT_MAX \<Longrightarrow> clean_loop i cleaned seq = Inr (cleaned @ cleaned_sequence seq)"
proof (induction seq arbitrary: i cleaned)
  case Nil
  then show ?case by (simp add: cleaned_sequence_def)
next
  case (Cons s ss)
  then have "i \<noteq> INT_MAX" and "Suc i + length ss \<le> INT_MAX" by simp_all
  with Cons.IH show ?case
    by (simp add: Let_def cleaned_sequence_def is_base_def)
qed

lemma clean_loop_overflow:
  "i \<le> INT_MAX \<Longrightarrow> INT_MAX < i + length seq \<Longrightarrow> clean_loop i cleaned seq = Inl UndefinedBehaviour"
proof (induction seq arbitrary: i cleaned)
  case Nil
  then show ?case by simp
next
  case (Cons s ss)
  show ?case
  proof (cases "i = INT_MAX")
    case True
    then show ?thesis by (simp add: Let_def)
  next
    case False
    with Cons.prems have "Suc i \<le> INT_MAX" and "INT_MAX < Suc i + length ss" by simp_all
    with Cons.IH False show ?thesis by (simp add: Let_def)
  qed
qed

lemma detect_rna_loop_eq:
  "i + length seq \<le> INT_MAX \<Longrightarrow> detect_rna_loop i seq = Inr (contains_u seq)"
proof (induction seq arbitrary: i)
  case Nil
  then show ?case by (simp add: contains_u_def)
next
  case (Cons s ss)
  then have "i \<noteq> INT_MAX" and "Suc i + length ss \<le> INT_MAX" by simp_all
  with Cons.IH show ?case by (auto simp add: contains_u_def toupper_U)
qed

lemma base_code_range: "base_code c \<in> {0, 1, 2, 3}"
  by (simp add: base_code_def)

lemma base_to_bits_cleaned:
  "c \<in> set (cleaned_sequence seq) \<Longrightarrow> base_to_bits c = Inr (base_code c)"
  by (auto simp add: cleaned_sequence_def is_base_def base_to_bits_def base_code_def)

lemma pack_words:
  assumes "a \<in> {0, 1, 2, 3 :: byte}" "b \<in> {0, 1, 2, 3 :: byte}"
    "c \<in> {0, 1, 2, 3 :: byte}" "d \<in> {0, 1, 2, 3 :: byte}"
  shows "push_bit 2 (push_bit 2 (push_bit 2 a OR b) OR c) OR d
         = push_bit 6 a OR push_bit 4 b OR push_bit 2 c OR d"
    and "push_bit 2 (push_bit 2 (push_bit 2 a OR b) OR c)
         = push_bit 6 a OR push_bit 4 b OR push_bit 2 c"
    and "push_bit 4 (push_bit 2 a OR b) = push_bit 6 a OR push_bit 4 b"
  using assms by auto

lemma pack_loop_eq:
  "\<forall>c\<in>set cs. base_to_bits c = Inr (base_code c) \<Longrightarrow>
   \<exists>buffer bits out'. pack_loop 0 0 out cs = Inr (buffer, bits, out') \<and>
     out' @ (if bits > 0 then [push_bit (8 - bits) buffer] else []) = out @ packed_payload cs"
proof (induction cs arbitrary: out rule: quads.induct)
  case (1 a b c d rest)
  let ?w = "push_bit 6 (base_code a) OR push_bit 4 (base_code b)
            OR push_bit 2 (base_code c) OR base_code d"
  have step: "pack_loop 0 0 out (a # b # c # d # rest) = pack_loop 0 0 (out @ [?w]) rest"
    using "1.prems"
      pack_words(1) [OF base_code_range base_code_range base_code_range base_code_range, of a b c d]
    by (simp add: Let_def)
  have "\<forall>c\<in>set rest. base_to_bits c = Inr (base_code c)"
    using "1.prems" by simp
  from "1.IH" [OF this, of "out @ [?w]"] show ?case
    unfolding step by (simp add: packed_payload_def)
next
  case 2
  then show ?case by (simp add: packed_payload_def)
next
  case (3 a)
  then show ?case by (simp add: packed_payload_def)
next
  case (4 a b)
  then show ?case
    using pack_words(3) [OF base_code_range base_code_range base_code_range base_code_range, of a b]
    by (simp add: packed_payload_def)
next
  case (5 a b c)
  then show ?case
    using pack_words(2) [OF base_code_range base_code_range base_code_range base_code_range, of a b c]
    by (simp add: packed_payload_def)
qed

lemma length_cleaned_sequence: "length (cleaned_sequence seq) \<le> length seq"
  by (simp add: cleaned_sequence_def le_trans [OF length_filter_le])

lemma write_seq_file_eq:
  assumes "length seq \<le> INT_MAX"
  shows "write_seq_file ident desc seq = Inr (seq_file ident desc seq)"
proof -
  let ?cl = "cleaned_sequence seq"
  have cl: "clean_loop 0 [] seq = Inr ?cl"
    using clean_loop_eq [of 0 seq "[]"] assms by simp
  have rna: "detect_rna seq = Inr (contains_u seq)"
    using detect_rna_loop_eq [of 0 seq] assms by (simp add: detect_rna_def)
  have "length ?cl < 2 ^ 64"
    using length_cleaned_sequence [of seq] assms by (simp add: INT_MAX_def)
  then have len: "unat (of_nat (length ?cl) :: 64 word) = length ?cl"
    by (simp add: unat_of_nat)
  obtain buffer bits out where
    pk: "pack_loop 0 0 [] ?cl = Inr (buffer, bits, out)" and
    fl: "out @ (if bits > 0 then [push_bit (8 - bits) buffer] else []) = packed_payload ?cl"
    using pack_loop_eq [of ?cl "[]"] base_to_bits_cleaned [of _ seq] by auto
  show ?thesis
    using fl
    by (simp add: write_seq_file_def Let_def cl rna len pk seq_file_def container_bytes_def
        written_container_def del: append_assoc)
qed

lemma write_seq_file_overflow:
  "INT_MAX < length seq \<Longrightarrow> write_seq_file ident desc seq = Inl UndefinedBehaviour"
  using clean_loop_overflow [of 0 seq "[]"] by (simp add: write_seq_file_def Let_def)

subsection \<open>Base codec\<close>

text \<open>
  C7: \<open>base_to_bits\<close> maps A to 00, C to 01, G to 10, and T and U to 11. For every other
  character it ends the run with the failure \<open>Invalid base\<close>; no code is put in its place,
  and the packing loop of the writer that meets such a character ends with that failure
  too, whatever its state.
\<close>

theorem base_to_bits_mapping:
  "base_to_bits CHR ''A'' = Inr 0 \<and> base_to_bits CHR ''C'' = Inr 1 \<and>
   base_to_bits CHR ''G'' = Inr 2 \<and> base_to_bits CHR ''T'' = Inr 3 \<and>
   base_to_bits CHR ''U'' = Inr 3 \<and>
   (c \<notin> {CHR ''A'', CHR ''C'', CHR ''G'', CHR ''T'', CHR ''U''} \<longrightarrow>
      base_to_bits c = Inl (InvalidBase c) \<and>
      pack_loop buffer bits out (c # cs) = Inl (InvalidBase c))"
  by (simp add: base_to_bits_def)

theorem base_to_bits_mapping_witness:
  "base_to_bits CHR ''N'' = Inl (InvalidBase CHR ''N'') \<and>
   base_to_bits CHR ''a'' = Inl (InvalidBase CHR ''a'') \<and>
   pack_loop 0 0 [] ''ACNG'' = Inl (InvalidBase CHR ''N'')"
  using base_to_bits_mapping [of "CHR ''N''" "push_bit 2 (push_bit 2 0 OR 0) OR 1" 4 "[]" "''G''"]
    base_to_bits_mapping [of "CHR ''a''"]
  by (simp add: base_to_bits_def)

subsection \<open>The loops of the reader\<close>

lemma bits_to_base_eq: "bits_to_base (b AND 3) type = Inr (base_char type (b AND 3))"
proof -
  have idem: "(b AND 3) AND 3 = b AND 3"
    by (simp add: and.assoc)
  show ?thesis
    using and_3_cases [of b] unfolding bits_to_base_def Let_def idem base_char_def
    by auto
qed

lemma emitted_append: "emitted n (xs @ ys) = emitted n xs @ emitted (n + length xs) ys"
  by (induction xs arbitrary: n) simp_all

lemma length_emitted_bases: "length (filter (\<lambda>c. c \<noteq> CHR 0x0A) (emitted n bs)) = length (filter (\<lambda>c. c \<noteq> CHR 0x0A) bs)"
  by (induction bs arbitrary: n) simp_all

lemma emit_loop_eq:
  assumes "seqlen \<le> INT_MAX"
  shows "emit_loop byte type seqlen shifts bases_written out =
    (let bs = take (seqlen - bases_written) (map (\<lambda>s. base_char type (drop_bit s byte AND 3)) shifts)
     in Inr (bases_written + length bs, out @ emitted bases_written bs))"
proof (induction shifts arbitrary: bases_written out)
  case Nil
  show ?case by simp
next
  case (Cons s shifts)
  show ?case
  proof (cases "bases_written < seqlen")
    case False
    then show ?thesis by simp
  next
    case True
    then have ne: "bases_written \<noteq> INT_MAX" using assms by simp
    from True obtain k where k: "seqlen - bases_written = Suc k"
      by (cases "seqlen - bases_written") simp_all
    then have k': "seqlen - Suc bases_written = k" by simp
    show ?thesis
      using True ne by (simp add: bits_to_base_eq Cons.IH Let_def k k')
  qed
qed

lemma payload_loop_eq:
  assumes "seqlen \<le> INT_MAX"
  shows "payload_loop type seqlen inp bases_written out =
    (let bs = take (seqlen - bases_written) (payload_bases type inp)
     in Inr (bases_written + length bs, out @ emitted bases_written bs))"
proof (induction inp arbitrary: bases_written out)
  case Nil
  show ?case by (simp add: payload_bases_def)
next
  case (Cons byte inp)
  show ?case
  proof (cases "bases_written < seqlen")
    case False
    then show ?thesis by simp
  next
    case True
    let ?four = "map (\<lambda>s. base_char type (drop_bit s byte AND 3)) [6, 4, 2, 0]"
    let ?bs = "take (seqlen - bases_written) ?four"
    let ?rest = "take (seqlen - (bases_written + length ?bs)) (payload_bases type inp)"
    have split: "payload_bases type (byte # inp) = ?four @ payload_bases type inp"
      by (simp add: payload_bases_def unpack_byte_def)
    have "length ?bs = min 4 (seqlen - bases_written)"
      by simp
    then have rest: "seqlen - (bases_written + length ?bs) = seqlen - bases_written - 4"
      using True by arith
    have four: "length ?four = 4"
      by simp
    have all: "take (seqlen - bases_written) (payload_bases type (byte # inp)) = ?bs @ ?rest"
      unfolding split rest by (simp only: take_append four)
    have "payload_loop type seqlen (byte # inp) bases_written out =
      payload_loop type seqlen inp (bases_written + length ?bs) (out @ emitted bases_written ?bs)"
      by (simp only: payload_loop.simps True if_True emit_loop_eq [OF assms] Let_def
            sum.case prod.case)
    also have "\<dots> = Inr (bases_written + length ?bs + length ?rest,
        (out @ emitted bases_written ?bs) @ emitted (bases_written + length ?bs) ?rest)"
      by (simp only: Cons.IH Let_def)
    also have "\<dots> = Inr (bases_written + length (?bs @ ?rest),
        out @ emitted bases_written (?bs @ ?rest))"
      by (simp only: emitted_append length_append append_assoc add.assoc)
    finally show ?thesis
      unfolding all Let_def .
  qed
qed

lemma emitted_short: "n mod 60 + length bs < 60 \<Longrightarrow> emitted n bs = bs"
proof (induction bs arbitrary: n)
  case Nil
  show ?case by simp
next
  case (Cons b bs)
  then have "Suc n mod 60 = Suc (n mod 60)"
    by (simp add: mod_Suc)
  with Cons show ?case by simp
qed

lemma emitted_cong: "n mod 60 = m mod 60 \<Longrightarrow> emitted n bs = emitted m bs"
proof (induction bs arbitrary: n m)
  case Nil
  show ?case by simp
next
  case (Cons b bs)
  have s: "Suc n mod 60 = Suc m mod 60"
    using Cons.prems by (metis mod_Suc_eq)
  then have "emitted (Suc n) bs = emitted (Suc m) bs"
    by (rule Cons.IH)
  with s show ?case
    by (simp only: emitted.simps)
qed

lemma emitted_mod: "emitted (n + 60) bs = emitted n bs"
  by (rule emitted_cong) (rule mod_add_self2)

lemma emitted_line: "length bs = 60 \<Longrightarrow> emitted 0 bs = bs @ [CHR 0x0A]"
proof -
  assume len: "length bs = 60"
  then have "bs = butlast bs @ [last bs]" and "length (butlast bs) = 59"
    by (cases bs rule: rev_cases; simp)+
  moreover have "emitted 0 (butlast bs @ [last bs]) = butlast bs @ [last bs, CHR 0x0A]"
    using \<open>length (butlast bs) = 59\<close>
    by (simp add: emitted_append emitted_short)
  ultimately show ?thesis by simp
qed

lemma emitted_wrap60:
  "emitted 0 bs @ (if length bs mod 60 \<noteq> 0 then [CHR 0x0A] else []) = wrap60 bs"
proof (induction bs rule: wrap60.induct)
  case (1 bs)
  show ?case
  proof (cases "bs = []")
    case True
    then show ?thesis by (simp add: wrap60.simps)
  next
    case False
    note ne = this
    show ?thesis
    proof (cases "length bs < 60")
      case True
      then have "drop 60 bs = []" "take 60 bs = bs" by simp_all
      then have "wrap60 bs = bs @ [CHR 0x0A]"
        using ne by (subst wrap60.simps) (simp add: wrap60.simps)
      moreover have "length bs mod 60 \<noteq> 0" using True ne by simp
      moreover have "emitted 0 bs = bs" using True by (simp add: emitted_short)
      ultimately show ?thesis by simp
    next
      case False
      then have len: "length (take 60 bs) = 60" by simp
      have "emitted 0 bs = emitted 0 (take 60 bs @ drop 60 bs)" by simp
      also have "\<dots> = take 60 bs @ [CHR 0x0A] @ emitted 0 (drop 60 bs)"
        using emitted_mod [of 0 "drop 60 bs"] len
        by (simp only: emitted_append emitted_line [OF len] len) simp
      finally have e: "emitted 0 bs = take 60 bs @ [CHR 0x0A] @ emitted 0 (drop 60 bs)" .
      have m: "length (drop 60 bs) mod 60 = length bs mod 60"
        using False by (simp add: le_mod_geq)
      show ?thesis
        using "1.IH" [OF ne] ne m
        by (subst wrap60.simps) (simp add: e)
    qed
  qed
qed

lemma decode_container:
  assumes meta: "length (metadata c) = unat (meta_len c)"
    and ml: "meta_len c + 1 \<noteq> 0"
    and sl: "unat (seq_len c) \<le> INT_MAX"
  shows "decode_seq_to_fasta ind (container_bytes c) =
    Inr (header_text (metadata c) @ [CHR 0x0A]
         @ wrap60 (take (unat (seq_len c)) (payload_bases (seq_type c) (payload c))))"
proof -
  let ?bs = "take (unat (seq_len c)) (payload_bases (seq_type c) (payload c))"
  have sig: "length SEQ_SIGNATURE = 4" by (simp add: SEQ_SIGNATURE_def)
  have "decode_seq_to_fasta ind (container_bytes c) =
    Inr ((header_text (metadata c) @ [CHR 0x0A]) @ emitted 0 ?bs
         @ (if length ?bs mod 60 \<noteq> 0 then [CHR 0x0A] else []))"
    using ml
    by (simp add: decode_seq_to_fasta_def container_bytes_def fread_def sig meta
        payload_loop_eq [OF sl] Let_def header_text_def)
  then show ?thesis
    using emitted_wrap60 [of ?bs] by simp
qed

subsection \<open>Packing and unpacking\<close>

lemma low_bits: "take_bit 2 a = a \<Longrightarrow> bit (a :: byte) n \<Longrightarrow> n < 2"
  by (metis bit_take_bit_iff)

lemma and_3_take_bit: "(x :: byte) AND 3 = take_bit 2 x"
  by (simp add: take_bit_eq_mask mask_eq_exp_minus_1)

lemma unpack_pack_bits:
  assumes "take_bit 2 a = a" "take_bit 2 b = b" "take_bit 2 c = c" "take_bit 2 d = (d :: byte)"
  shows "drop_bit 6 (push_bit 6 a OR push_bit 4 b OR push_bit 2 c OR d) AND 3 = a"
    and "drop_bit 4 (push_bit 6 a OR push_bit 4 b OR push_bit 2 c OR d) AND 3 = b"
    and "drop_bit 2 (push_bit 6 a OR push_bit 4 b OR push_bit 2 c OR d) AND 3 = c"
    and "(push_bit 6 a OR push_bit 4 b OR push_bit 2 c OR d) AND 3 = d"
proof -
  note l = low_bits [OF assms(1)] low_bits [OF assms(2)] low_bits [OF assms(3)]
    low_bits [OF assms(4)]
  show "drop_bit 6 (push_bit 6 a OR push_bit 4 b OR push_bit 2 c OR d) AND 3 = a"
    unfolding and_3_take_bit by (rule bit_word_eqI) (use l in \<open>force simp add: bit_simps\<close>)
  show "drop_bit 4 (push_bit 6 a OR push_bit 4 b OR push_bit 2 c OR d) AND 3 = b"
    unfolding and_3_take_bit by (rule bit_word_eqI) (use l in \<open>force simp add: bit_simps\<close>)
  show "drop_bit 2 (push_bit 6 a OR push_bit 4 b OR push_bit 2 c OR d) AND 3 = c"
    unfolding and_3_take_bit by (rule bit_word_eqI) (use l in \<open>force simp add: bit_simps\<close>)
  show "(push_bit 6 a OR push_bit 4 b OR push_bit 2 c OR d) AND 3 = d"
    unfolding and_3_take_bit by (rule bit_word_eqI) (use l in \<open>force simp add: bit_simps\<close>)
qed

lemma unpack_pack_group4:
  assumes "take_bit 2 a = a" "take_bit 2 b = b" "take_bit 2 c = c" "take_bit 2 d = (d :: byte)"
  shows "unpack_byte (pack_group [a, b, c, d]) = [a, b, c, d]"
  unfolding unpack_byte_def pack_group.simps
  by (simp only: unpack_pack_bits [OF assms])

lemma unpack_pack_group:
  assumes "take_bit 2 a = a" "take_bit 2 b = b" "take_bit 2 c = (c :: byte)"
  shows "unpack_byte (pack_group [a, b, c]) = [a, b, c, 0]"
    and "unpack_byte (pack_group [a, b]) = [a, b, 0, 0]"
    and "unpack_byte (pack_group [a]) = [a, 0, 0, 0]"
  using unpack_pack_group4 [OF assms, of 0] unpack_pack_group4 [OF assms(1,2), of 0 0]
    unpack_pack_group4 [OF assms(1), of 0 0 0]
  by simp_all

lemma base_code_bits: "take_bit 2 (base_code c) = base_code c"
  by (simp add: base_code_def)

lemma length_quads: "length (quads xs) = (length xs + 3) div 4"
  by (induction xs rule: quads.induct) simp_all

lemma length_packed_payload: "length (packed_payload cleaned) = (length cleaned + 3) div 4"
  by (simp add: packed_payload_def length_quads)

lemma unpack_packed_payload:
  "take (length cs) (concat (map unpack_byte (packed_payload cs))) = map base_code cs"
proof (induction cs rule: quads.induct)
  case (1 a b c d rest)
  have "unpack_byte (pack_group [base_code a, base_code b, base_code c, base_code d])
        = [base_code a, base_code b, base_code c, base_code d]"
    by (rule unpack_pack_group4 [OF base_code_bits base_code_bits base_code_bits base_code_bits])
  with 1 show ?case
    by (simp add: packed_payload_def)
next
  case 2
  show ?case by (simp add: packed_payload_def)
next
  case (3 a)
  show ?case
    using unpack_pack_group(3) [OF base_code_bits base_code_bits base_code_bits, of a]
    by (simp add: packed_payload_def)
next
  case (4 a b)
  show ?case
    using unpack_pack_group(2) [OF base_code_bits base_code_bits base_code_bits, of a b]
    by (simp add: packed_payload_def)
next
  case (5 a b c)
  show ?case
    using unpack_pack_group(1) [OF base_code_bits base_code_bits base_code_bits, of a b c]
    by (simp add: packed_payload_def)
qed

lemma payload_bases_packed:
  "take (length cs) (payload_bases type (packed_payload cs)) = map (\<lambda>c. base_char type (base_code c)) cs"
proof -
  have "take (length cs) (payload_bases type (packed_payload cs))
        = map (base_char type) (take (length cs) (concat (map unpack_byte (packed_payload cs))))"
    by (simp add: payload_bases_def take_map)
  then show ?thesis
    by (simp add: unpack_packed_payload)
qed

text \<open>The letters that the reader prints for a sequence written by the writer: the
  cleaned sequence, with U for T when the type is RNA.\<close>

lemma cleaned_sequence_letters:
  "c \<in> set (cleaned_sequence seq) \<Longrightarrow>
   c = CHR ''A'' \<or> c = CHR ''C'' \<or> c = CHR ''G'' \<or> c = CHR ''T''"
  by (auto simp add: cleaned_sequence_def is_base_def)

lemma rendered_cleaned:
  "map (\<lambda>c. base_char type (base_code c)) (cleaned_sequence seq)
   = map (\<lambda>c. if c = CHR ''T'' \<and> type = TYPE_RNA then CHR ''U'' else c) (cleaned_sequence seq)"
proof (rule map_cong [OF refl])
  fix c
  assume "c \<in> set (cleaned_sequence seq)"
  from cleaned_sequence_letters [OF this]
  show "base_char type (base_code c) = (if c = CHR ''T'' \<and> type = TYPE_RNA then CHR ''U'' else c)"
    by (auto simp add: base_char_def base_code_def)
qed

lemma header_text_desc:
  "CHR 0x00 \<notin> set desc \<Longrightarrow> header_text (map byte_of_char desc) = desc"
proof -
  assume "CHR 0x00 \<notin> set desc"
  then have "takeWhile (\<lambda>b. b \<noteq> 0) (map byte_of_char desc) = map byte_of_char desc"
    by (intro takeWhile_eq_all_conv [THEN iffD2]) auto
  then have "header_text (map byte_of_char desc) = map char_of_byte (map byte_of_char desc)"
    by (simp only: header_text_def)
  then show ?thesis
    by (simp add: comp_def)
qed

lemma decode_written:
  assumes seq: "length seq \<le> INT_MAX"
    and desc: "length desc < 4294967295"
    and nul: "CHR 0x00 \<notin> set desc"
  shows "decode_seq_to_fasta ind (container_bytes (written_container desc seq)) =
    Inr (desc @ [CHR 0x0A]
         @ wrap60 (map (\<lambda>c. if c = CHR ''T'' \<and> contains_u seq then CHR ''U'' else c)
                     (cleaned_sequence seq)))"
proof -
  let ?c = "written_container desc seq"
  let ?cl = "cleaned_sequence seq"
  have ml: "unat (of_nat (length desc) :: 32 word) = length desc"
    using desc by (simp add: unat_of_nat)
  have "length ?cl < 2 ^ 64"
    using length_cleaned_sequence [of seq] seq by (simp add: INT_MAX_def)
  then have sl: "unat (of_nat (length ?cl) :: 64 word) = length ?cl"
    by (simp add: unat_of_nat)
  have m: "metadata ?c = map byte_of_char desc"
    by (simp add: written_container_def ml)
  then have 1: "length (metadata ?c) = unat (meta_len ?c)"
    by (simp add: written_container_def ml)
  have "unat (meta_len ?c + 1) = length desc + 1"
    using desc by (simp add: written_container_def unat_word_ariths ml)
  then have 2: "meta_len ?c + 1 \<noteq> 0"
    by (metis Suc_eq_plus1 nat.distinct(1) unat_eq_0)
  have 3: "unat (seq_len ?c) \<le> INT_MAX"
    using length_cleaned_sequence [of seq] seq by (simp add: written_container_def sl)
  have ty: "(seq_type ?c = TYPE_RNA) = contains_u seq"
    by (simp add: written_container_def TYPE_RNA_def TYPE_DNA_def)
  have "take (unat (seq_len ?c)) (payload_bases (seq_type ?c) (payload ?c))
        = map (\<lambda>c. if c = CHR ''T'' \<and> contains_u seq then CHR ''U'' else c) ?cl"
    using payload_bases_packed [of ?cl "seq_type ?c"] rendered_cleaned [of "seq_type ?c" seq]
    by (simp add: written_container_def sl ty [unfolded written_container_def, simplified])
  then show ?thesis
    using decode_container [OF 1 2 3, of ind] header_text_desc [OF nul]
    by (simp add: m)
qed

subsection \<open>Round trip\<close>

lemma rendered_single_alphabet:
  assumes "(\<forall>c\<in>set seq. toupper c \<noteq> CHR ''U'') \<or> (\<forall>c\<in>set seq. toupper c \<noteq> CHR ''T'')"
  shows "map (\<lambda>c. if c = CHR ''T'' \<and> contains_u seq then CHR ''U'' else c) (cleaned_sequence seq)
         = filter is_base (map toupper seq)"
proof (cases "contains_u seq")
  case False
  then have "\<forall>c\<in>set seq. toupper c \<noteq> CHR ''U''"
    by (auto simp add: contains_u_def toupper_U)
  then have "map (\<lambda>c. if c = CHR ''U'' then CHR ''T'' else c) (filter is_base (map toupper seq))
             = filter is_base (map toupper seq)"
    by (intro map_idI) auto
  with False show ?thesis
    by (simp add: cleaned_sequence_def)
next
  case True
  then have "\<not> (\<forall>c\<in>set seq. toupper c \<noteq> CHR ''U'')"
    by (auto simp add: contains_u_def toupper_U)
  with assms have "\<forall>c\<in>set seq. toupper c \<noteq> CHR ''T''"
    by blast
  then have "map ((\<lambda>c. if c = CHR ''T'' then CHR ''U'' else c) \<circ> (\<lambda>c. if c = CHR ''U'' then CHR ''T'' else c))
               (filter is_base (map toupper seq))
             = filter is_base (map toupper seq)"
    by (intro map_idI) auto
  with True show ?thesis
    by (simp add: cleaned_sequence_def)
qed

text \<open>
  C1: for every identifier, every description (a C string of fewer than \<open>2^32 - 1\<close>
  characters) and every raw sequence (of at most \<open>INT_MAX\<close> characters) that does not hold
  both T and U, in either case: \<open>write_seq_file\<close> creates the file \<open><id>.seq\<close>, and
  decoding its contents gives the description as the header line, followed by the
  uppercased sequence restricted to the base letters, in lines of 60 characters. With one
  of T and U only, that is the sequence normalised for its type: U where the type is RNA,
  T where it is DNA.
\<close>

theorem write_decode_round_trip:
  assumes "length seq \<le> INT_MAX"
    and "length desc < 4294967295"
    and "CHR 0x00 \<notin> set desc"
    and "(\<forall>c\<in>set seq. toupper c \<noteq> CHR ''U'') \<or> (\<forall>c\<in>set seq. toupper c \<noteq> CHR ''T'')"
  shows "\<exists>bytes. write_seq_file ident desc seq = Inr (take 255 (ident @ ''.seq''), bytes) \<and>
           decode_seq_to_fasta ind bytes
           = Inr (desc @ [CHR 0x0A] @ wrap60 (filter is_base (map toupper seq)))"
  using write_seq_file_eq [OF assms(1), of ident desc] decode_written [OF assms(1-3), of ind]
    rendered_single_alphabet [OF assms(4)]
  by (simp add: seq_file_def)

theorem write_decode_round_trip_witness:
  "\<exists>bytes. write_seq_file ''s1'' ''>s1 demo'' ''acgu-UNca'' = Inr (''s1.seq'', bytes) \<and>
     decode_seq_to_fasta zeroed bytes = Inr (''>s1 demo'' @ [CHR 0x0A] @ ''ACGUUCA'' @ [CHR 0x0A])"
proof -
  have 1: "length ''acgu-UNca'' \<le> INT_MAX"
    by (simp add: INT_MAX_def)
  have 2: "length ''>s1 demo'' < 4294967295"
    by simp
  have 3: "CHR 0x00 \<notin> set ''>s1 demo''"
    by simp
  have 4: "(\<forall>c\<in>set ''acgu-UNca''. toupper c \<noteq> CHR ''U'')
           \<or> (\<forall>c\<in>set ''acgu-UNca''. toupper c \<noteq> CHR ''T'')"
    by code_simp
  have 5: "filter is_base (map toupper ''acgu-UNca'') = ''ACGUUCA''"
    by code_simp
  have 6: "wrap60 ''ACGUUCA'' = ''ACGUUCA'' @ [CHR 0x0A]"
    by (simp add: wrap60.simps)
  show ?thesis
    using write_decode_round_trip [OF 1 2 3 4, of "''s1''" zeroed, unfolded 5 6]
    by simp
qed

subsection \<open>Sequence type\<close>

text \<open>
  C4: for every raw sequence (of at most \<open>INT_MAX\<close> characters), \<open>detect_rna\<close> answers
  whether the text as given holds a \<open>u\<close> or a \<open>U\<close>, and the type byte of the container
  that \<open>write_seq_file\<close> writes is \<open>TYPE_RNA\<close> in that case and \<open>TYPE_DNA\<close> otherwise. With
  type RNA \<open>bits_to_base\<close> never gives T and gives U for the code 11; with type DNA it
  never gives U and gives T for the code 11.
\<close>

theorem type_tag_and_rendering:
  assumes "length seq \<le> INT_MAX"
  shows "detect_rna seq = Inr (CHR ''u'' \<in> set seq \<or> CHR ''U'' \<in> set seq) \<and>
    (\<exists>c. write_seq_file ident desc seq = Inr (take 255 (ident @ ''.seq''), container_bytes c) \<and>
         length (metadata c) = unat (meta_len c) \<and>
         seq_type c = (if CHR ''u'' \<in> set seq \<or> CHR ''U'' \<in> set seq then TYPE_RNA else TYPE_DNA)) \<and>
    TYPE_RNA \<noteq> TYPE_DNA \<and>
    bits_to_base code TYPE_RNA \<noteq> Inr CHR ''T'' \<and>
    bits_to_base code TYPE_DNA \<noteq> Inr CHR ''U'' \<and>
    (code AND 3 = 3 \<longrightarrow>
       bits_to_base code TYPE_RNA = Inr CHR ''U'' \<and> bits_to_base code TYPE_DNA = Inr CHR ''T'')"
proof -
  let ?c = "written_container desc seq"
  have "detect_rna seq = Inr (CHR ''u'' \<in> set seq \<or> CHR ''U'' \<in> set seq)"
    using detect_rna_loop_eq [of 0 seq] assms by (simp add: detect_rna_def contains_u_def)
  moreover have "unat (of_nat (length desc) :: 32 word) \<le> length desc"
    by (simp add: unat_of_nat)
  then have "length (metadata ?c) = unat (meta_len ?c)"
    by (simp add: written_container_def min_def)
  then have "\<exists>c. write_seq_file ident desc seq = Inr (take 255 (ident @ ''.seq''), container_bytes c) \<and>
         length (metadata c) = unat (meta_len c) \<and>
         seq_type c = (if CHR ''u'' \<in> set seq \<or> CHR ''U'' \<in> set seq then TYPE_RNA else TYPE_DNA)"
    using write_seq_file_eq [OF assms, of ident desc]
    by (intro exI [of _ ?c]) (simp add: seq_file_def written_container_def contains_u_def)
  moreover have "TYPE_RNA \<noteq> TYPE_DNA"
    by (simp add: TYPE_RNA_def TYPE_DNA_def)
  moreover have "bits_to_base code TYPE_RNA \<noteq> Inr CHR ''T''"
    and "bits_to_base code TYPE_DNA \<noteq> Inr CHR ''U''"
    by (simp_all add: bits_to_base_def Let_def TYPE_RNA_def TYPE_DNA_def)
  moreover have "code AND 3 = 3 \<longrightarrow>
       bits_to_base code TYPE_RNA = Inr CHR ''U'' \<and> bits_to_base code TYPE_DNA = Inr CHR ''T''"
    by (simp add: bits_to_base_def Let_def TYPE_RNA_def TYPE_DNA_def)
  ultimately show ?thesis
    by (intro conjI)
qed

theorem type_tag_and_rendering_witness:
  "detect_rna ''acgu'' = Inr True \<and> detect_rna ''ACGT'' = Inr False \<and>
   (\<exists>c. write_seq_file ''r'' ''>r'' ''acgu'' = Inr (''r.seq'', container_bytes c) \<and>
        length (metadata c) = unat (meta_len c) \<and> seq_type c = TYPE_RNA) \<and>
   (\<exists>c. write_seq_file ''d'' ''>d'' ''ACGT'' = Inr (''d.seq'', container_bytes c) \<and>
        length (metadata c) = unat (meta_len c) \<and> seq_type c = TYPE_DNA) \<and>
   bits_to_base 0x1B TYPE_RNA = Inr CHR ''U'' \<and> bits_to_base 0x1B TYPE_DNA = Inr CHR ''T''"
proof -
  have 1: "length ''acgu'' \<le> INT_MAX" and 2: "length ''ACGT'' \<le> INT_MAX"
    by (simp_all add: INT_MAX_def)
  have 3: "(0x1B :: byte) AND 3 = 3"
    by simp
  show ?thesis
    using type_tag_and_rendering [OF 1, of "''r''" "''>r''" "0x1B"]
      type_tag_and_rendering [OF 2, of "''d''" "''>d''" "0x1B"] 3
    by simp
qed

subsection \<open>Payload\<close>

lemma packed_payload_Nil [simp]: "packed_payload cs = [] \<longleftrightarrow> cs = []"
  by (cases cs rule: quads.cases) (simp_all add: packed_payload_def)

lemma packed_padding:
  "length cs mod 4 \<noteq> 0 \<Longrightarrow>
   take_bit (8 - 2 * (length cs mod 4)) (last (packed_payload cs)) = 0"
proof (induction cs rule: quads.induct)
  case (1 a b c d rest)
  then have m: "length rest mod 4 \<noteq> 0" and eq: "length (a # b # c # d # rest) mod 4 = length rest mod 4"
    by simp_all
  then have "rest \<noteq> []"
    by auto
  then have "last (packed_payload (a # b # c # d # rest)) = last (packed_payload rest)"
    using packed_payload_Nil [of rest] by (simp add: packed_payload_def)
  with "1.IH" [OF m] eq show ?case
    by simp
next
  case 2
  then show ?case by simp
next
  case (3 a)
  show ?case
    by (rule bit_word_eqI) (simp add: packed_payload_def bit_simps)
next
  case (4 a b)
  show ?case
    by (rule bit_word_eqI) (simp add: packed_payload_def bit_simps)
next
  case (5 a b c)
  show ?case
    by (rule bit_word_eqI) (simp add: packed_payload_def bit_simps)
qed

lemma nth_unpack_byte:
  "k < 4 \<Longrightarrow> unpack_byte b ! k = drop_bit (6 - 2 * k) b AND 3"
proof -
  assume "k < 4"
  then have "k = 0 \<or> k = 1 \<or> k = 2 \<or> k = 3"
    by arith
  then show ?thesis
    by (auto simp add: unpack_byte_def)
qed

lemma nth_concat_unpack:
  "i < 4 * length bs \<Longrightarrow>
   concat (map unpack_byte bs) ! i = drop_bit (6 - 2 * (i mod 4)) (bs ! (i div 4)) AND 3"
proof (induction bs arbitrary: i)
  case Nil
  then show ?case by simp
next
  case (Cons b bs)
  have len: "length (unpack_byte b) = 4"
    by (simp add: unpack_byte_def)
  show ?case
  proof (cases "i < 4")
    case True
    then show ?thesis
      by (simp add: nth_append len nth_unpack_byte)
  next
    case False
    then obtain j where j: "i = j + 4"
      by (metis add.commute le_Suc_ex not_less)
    with Cons.prems have "j < 4 * length bs"
      by simp
    moreover have "(j + 4) div 4 = Suc (j div 4)" and "(j + 4) mod 4 = j mod 4"
      by simp_all
    ultimately show ?thesis
      using Cons.IH [of j] by (simp add: j nth_append len)
  qed
qed

lemma packed_payload_codes:
  assumes "i < length cs"
  shows "drop_bit (6 - 2 * (i mod 4)) (packed_payload cs ! (i div 4)) AND 3 = base_code (cs ! i)"
proof -
  have "i < 4 * length (packed_payload cs)"
    using assms by (simp add: length_packed_payload)
  then have "drop_bit (6 - 2 * (i mod 4)) (packed_payload cs ! (i div 4)) AND 3
             = concat (map unpack_byte (packed_payload cs)) ! i"
    by (simp add: nth_concat_unpack)
  also have "\<dots> = take (length cs) (concat (map unpack_byte (packed_payload cs))) ! i"
    using assms by simp
  also have "\<dots> = base_code (cs ! i)"
    using assms by (simp add: unpack_packed_payload)
  finally show ?thesis .
qed

text \<open>
  C5: for every raw sequence (of at most \<open>INT_MAX\<close> characters), the file that
  \<open>write_seq_file\<close> creates is a container whose \<open>seq_len\<close> is the number of bases of the
  cleaned sequence and whose payload has exactly \<open>ceil(seq_len / 4)\<close> bytes: four times
  the payload length is \<open>seq_len\<close> when that is a multiple of 4 (no padding byte), and
  otherwise the low \<open>8 - 2 * (seq_len mod 4)\<close> bits of the last byte are zero. Base \<open>i\<close>
  is in byte \<open>i div 4\<close>, base \<open>4k\<close> in the two highest bits of byte \<open>k\<close>: its code is read
  there at shift \<open>6 - 2 * (i mod 4)\<close>.
\<close>

theorem payload_packing:
  assumes "length seq \<le> INT_MAX"
  shows "\<exists>c. write_seq_file ident desc seq = Inr (take 255 (ident @ ''.seq''), container_bytes c) \<and>
           length (metadata c) = unat (meta_len c) \<and>
           unat (seq_len c) = length (cleaned_sequence seq) \<and>
           length (payload c) = (unat (seq_len c) + 3) div 4 \<and>
           (unat (seq_len c) mod 4 = 0 \<longrightarrow> 4 * length (payload c) = unat (seq_len c)) \<and>
           (unat (seq_len c) mod 4 \<noteq> 0 \<longrightarrow>
              take_bit (8 - 2 * (unat (seq_len c) mod 4)) (last (payload c)) = 0) \<and>
           (\<forall>i < unat (seq_len c).
              base_to_bits (cleaned_sequence seq ! i)
              = Inr (drop_bit (6 - 2 * (i mod 4)) (payload c ! (i div 4)) AND 3))"
proof -
  let ?c = "written_container desc seq"
  let ?cl = "cleaned_sequence seq"
  have "length ?cl < 2 ^ 64"
    using length_cleaned_sequence [of seq] assms by (simp add: INT_MAX_def)
  then have sl: "unat (seq_len ?c) = length ?cl"
    by (simp add: written_container_def unat_of_nat)
  have pl: "payload ?c = packed_payload ?cl"
    by (simp add: written_container_def)
  have "unat (of_nat (length desc) :: 32 word) \<le> length desc"
    by (simp add: unat_of_nat)
  then have md: "length (metadata ?c) = unat (meta_len ?c)"
    by (simp add: written_container_def min_def)
  have codes: "\<forall>i < length ?cl.
      base_to_bits (?cl ! i) = Inr (drop_bit (6 - 2 * (i mod 4)) (packed_payload ?cl ! (i div 4)) AND 3)"
    by (simp add: packed_payload_codes base_to_bits_cleaned [of _ seq])
  have mult: "length ?cl mod 4 = 0 \<longrightarrow> 4 * ((length ?cl + 3) div 4) = length ?cl"
    by presburger
  show ?thesis
    apply (rule exI [of _ ?c])
    unfolding sl pl length_packed_payload
    using write_seq_file_eq [OF assms, of ident desc] md codes mult packed_padding [of ?cl]
    by (simp add: seq_file_def)
qed

theorem payload_packing_witness:
  "\<exists>c. write_seq_file ''s1'' ''>s1 demo'' ''ACGTU'' = Inr (''s1.seq'', container_bytes c) \<and>
     unat (seq_len c) = 5 \<and> length (payload c) = 2 \<and> take_bit 6 (last (payload c)) = 0 \<and>
     base_to_bits CHR ''G'' = Inr (drop_bit 2 (payload c ! 0) AND 3) \<and>
     base_to_bits CHR ''T'' = Inr (drop_bit 6 (payload c ! 1) AND 3)"
proof -
  have 1: "length ''ACGTU'' \<le> INT_MAX"
    by (simp add: INT_MAX_def)
  have 2: "cleaned_sequence ''ACGTU'' = ''ACGTT''"
    by code_simp
  from payload_packing [OF 1, of "''s1''" "''>s1 demo''", unfolded 2]
  obtain c where w: "write_seq_file ''s1'' ''>s1 demo'' ''ACGTU'' = Inr (take 255 (''s1'' @ ''.seq''), container_bytes c)"
    and n: "unat (seq_len c) = length ''ACGTT''"
    and l: "length (payload c) = (unat (seq_len c) + 3) div 4"
    and p: "unat (seq_len c) mod 4 \<noteq> 0 \<longrightarrow>
         take_bit (8 - 2 * (unat (seq_len c) mod 4)) (last (payload c)) = 0"
    and b: "\<forall>i < unat (seq_len c).
         base_to_bits (''ACGTT'' ! i) = Inr (drop_bit (6 - 2 * (i mod 4)) (payload c ! (i div 4)) AND 3)"
    by blast
  have n': "unat (seq_len c) = 5"
    using n by simp
  have "(2 :: nat) < unat (seq_len c)" and 4: "(4 :: nat) < unat (seq_len c)"
    using n' by simp_all
  then have "base_to_bits (''ACGTT'' ! 2) = Inr (drop_bit (6 - 2 * (2 mod 4)) (payload c ! (2 div 4)) AND 3)"
    using b by blast
  then have g: "base_to_bits CHR ''G'' = Inr (drop_bit 2 (payload c ! 0) AND 3)"
    by simp
  have "base_to_bits (''ACGTT'' ! 4) = Inr (drop_bit (6 - 2 * (4 mod 4)) (payload c ! (4 div 4)) AND 3)"
    using b 4 by blast
  then have t: "base_to_bits CHR ''T'' = Inr (drop_bit 6 (payload c ! 1) AND 3)"
    by simp
  show ?thesis
    using w n' l p g t by (intro exI [of _ c]) simp
qed

subsection \<open>Decoding\<close>

lemma nth_payload_bases:
  assumes "i < 4 * length bytes"
  shows "bits_to_base (drop_bit (6 - 2 * (i mod 4)) (bytes ! (i div 4)) AND 3) type
         = Inr (payload_bases type bytes ! i)"
proof -
  have "length (concat (map unpack_byte bytes)) = 4 * length bytes"
    by (induction bytes) (simp_all add: unpack_byte_def)
  then have "payload_bases type bytes ! i = base_char type (concat (map unpack_byte bytes) ! i)"
    using assms by (simp add: payload_bases_def)
  then show ?thesis
    using assms by (simp add: nth_concat_unpack bits_to_base_eq)
qed

lemma length_payload_bases [simp]: "length (payload_bases type bytes) = 4 * length bytes"
  by (induction bytes) (simp_all add: payload_bases_def unpack_byte_def)

lemma last_wrap60: "bs \<noteq> [] \<Longrightarrow> last (wrap60 bs) = CHR 0x0A"
proof (induction bs rule: wrap60.induct)
  case (1 bs)
  show ?case
  proof (cases "drop 60 bs = []")
    case True
    then show ?thesis
      using "1.prems" by (subst wrap60.simps) (simp add: wrap60.simps)
  next
    case False
    have "wrap60 (drop 60 bs) \<noteq> []"
      using False by (subst wrap60.simps) simp
    with "1.IH" [OF "1.prems" False] show ?thesis
      using "1.prems" by (subst wrap60.simps) simp
  qed
qed

text \<open>
  C6: for every well-formed container (with \<open>meta_len\<close> below \<open>0xFFFFFFFF\<close> and \<open>seq_len\<close>
  at most \<open>INT_MAX\<close>), the decoder prints the header line and then exactly \<open>seq_len\<close>
  bases: base \<open>i\<close> is the letter of the two bits of payload byte \<open>i div 4\<close> at shift
  \<open>6 - 2 * (i mod 4)\<close>, so the codes of a byte are taken from the highest bits down and
  the padding after base \<open>seq_len - 1\<close> is not printed. The bases are printed in lines of
  60, each ended by a line break, and the output ends with a line break.
\<close>

theorem decode_payload:
  assumes "well_formed c"
    and "meta_len c + 1 \<noteq> 0"
    and "unat (seq_len c) \<le> INT_MAX"
  shows "\<exists>bases.
           decode_seq_to_fasta ind (container_bytes c)
           = Inr (header_text (metadata c) @ [CHR 0x0A] @ wrap60 bases) \<and>
           length bases = unat (seq_len c) \<and>
           (\<forall>i < unat (seq_len c).
              bits_to_base (drop_bit (6 - 2 * (i mod 4)) (payload c ! (i div 4)) AND 3) (seq_type c)
              = Inr (bases ! i)) \<and>
           last (header_text (metadata c) @ [CHR 0x0A] @ wrap60 bases) = CHR 0x0A"
proof -
  let ?bases = "take (unat (seq_len c)) (payload_bases (seq_type c) (payload c))"
  have meta: "length (metadata c) = unat (meta_len c)"
    and pl: "length (payload c) = (unat (seq_len c) + 3) div 4"
    using assms(1) by (simp_all add: well_formed_def)
  have enough: "unat (seq_len c) \<le> 4 * length (payload c)"
    unfolding pl by presburger
  then have len: "length ?bases = unat (seq_len c)"
    by simp
  have nth: "\<forall>i < unat (seq_len c).
      bits_to_base (drop_bit (6 - 2 * (i mod 4)) (payload c ! (i div 4)) AND 3) (seq_type c)
      = Inr (?bases ! i)"
    using enough by (simp add: nth_payload_bases)
  have "last (header_text (metadata c) @ [CHR 0x0A] @ wrap60 ?bases) = CHR 0x0A"
  proof (cases "?bases = []")
    case True
    then show ?thesis by (simp add: wrap60.simps)
  next
    case False
    then have "wrap60 ?bases \<noteq> []"
      by (subst wrap60.simps) simp
    then show ?thesis
      using last_wrap60 [OF False] by simp
  qed
  with decode_container [OF meta assms(2,3), of ind] len nth show ?thesis
    by blast
qed

theorem decode_payload_witness:
  "\<exists>bases.
     decode_seq_to_fasta zeroed
       (container_bytes \<lparr>version = 1, meta_len = 2, metadata = [0x3E, 0x61], seq_type = 2,
                         seq_len = 5, payload = [0x1B, 0xC0]\<rparr>)
     = Inr (''>a'' @ [CHR 0x0A] @ wrap60 bases) \<and>
     length bases = 5 \<and> bases ! 0 = CHR ''A'' \<and> bases ! 3 = CHR ''U'' \<and> bases ! 4 = CHR ''U''"
proof -
  let ?c = "\<lparr>version = 1, meta_len = 2, metadata = [0x3E, 0x61], seq_type = 2,
             seq_len = 5, payload = [0x1B, 0xC0 :: byte]\<rparr>"
  have 1: "well_formed ?c"
    by (simp add: well_formed_def)
  have 2: "meta_len ?c + 1 \<noteq> 0"
    by simp
  have 3: "unat (seq_len ?c) \<le> INT_MAX"
    by (simp add: INT_MAX_def)
  have h: "header_text (metadata ?c) = ''>a''"
    by code_simp
  from decode_payload [OF 1 2 3, of zeroed, unfolded h]
  obtain bases where d: "decode_seq_to_fasta zeroed (container_bytes ?c)
        = Inr (''>a'' @ [CHR 0x0A] @ wrap60 bases)"
    and l: "length bases = unat (seq_len ?c)"
    and b: "\<forall>i < unat (seq_len ?c).
              bits_to_base (drop_bit (6 - 2 * (i mod 4)) (payload ?c ! (i div 4)) AND 3) (seq_type ?c)
              = Inr (bases ! i)"
    by blast
  have "(0 :: nat) < unat (seq_len ?c)" and "(3 :: nat) < unat (seq_len ?c)"
    and "(4 :: nat) < unat (seq_len ?c)"
    by simp_all
  then have "bits_to_base (drop_bit (6 - 2 * (0 mod 4)) (payload ?c ! (0 div 4)) AND 3) (seq_type ?c)
      = Inr (bases ! 0)"
    and "bits_to_base (drop_bit (6 - 2 * (3 mod 4)) (payload ?c ! (3 div 4)) AND 3) (seq_type ?c)
      = Inr (bases ! 3)"
    and "bits_to_base (drop_bit (6 - 2 * (4 mod 4)) (payload ?c ! (4 div 4)) AND 3) (seq_type ?c)
      = Inr (bases ! 4)"
    using b by blast+
  then have "bases ! 0 = CHR ''A''" and "bases ! 3 = CHR ''U''" and "bases ! 4 = CHR ''U''"
    by (simp_all add: bits_to_base_def TYPE_RNA_def)
  with d l show ?thesis
    by (intro exI [of _ bases]) simp
qed

subsection \<open>The empty sequence\<close>

text \<open>
  C9: when the raw sequence (of at most \<open>INT_MAX\<close> characters) holds no base letter, so
  that \<open>seq_len = 0\<close>, the file written ends with the \<open>seq_len\<close> field: the payload has
  zero bytes. Decoding any container with \<open>seq_len = 0\<close> (and \<open>meta_len\<close> bytes of
  metadata, \<open>meta_len\<close> below \<open>0xFFFFFFFF\<close>) prints the header line and its newline and
  nothing more, whatever follows the \<open>seq_len\<close> field.
\<close>

theorem empty_sequence:
  "(length seq \<le> INT_MAX \<and> (\<forall>ch\<in>set seq. \<not> is_base (toupper ch)) \<longrightarrow>
      write_seq_file ident desc seq
      = Inr (take 255 (ident @ ''.seq''),
             SEQ_SIGNATURE @ [VERSION] @ le32 (of_nat (length desc))
             @ map byte_of_char (take (unat (of_nat (length desc) :: 32 word)) desc)
             @ [TYPE_DNA] @ le64 0)) \<and>
   (seq_len c = 0 \<and> length (metadata c) = unat (meta_len c) \<and> meta_len c + 1 \<noteq> 0 \<longrightarrow>
      decode_seq_to_fasta ind (container_bytes c) = Inr (header_text (metadata c) @ [CHR 0x0A]))"
proof (intro conjI impI)
  assume a: "length seq \<le> INT_MAX \<and> (\<forall>ch\<in>set seq. \<not> is_base (toupper ch))"
  then have "filter is_base (map toupper seq) = []"
    by (simp add: filter_empty_conv)
  then have cl: "cleaned_sequence seq = []"
    by (simp add: cleaned_sequence_def)
  have "\<forall>ch\<in>set seq. toupper ch \<noteq> CHR ''U''"
    using a by (simp add: is_base_def)
  then have "\<not> contains_u seq"
    unfolding toupper_U contains_u_def by blast
  then show "write_seq_file ident desc seq
      = Inr (take 255 (ident @ ''.seq''),
             SEQ_SIGNATURE @ [VERSION] @ le32 (of_nat (length desc))
             @ map byte_of_char (take (unat (of_nat (length desc) :: 32 word)) desc)
             @ [TYPE_DNA] @ le64 0)"
    using a write_seq_file_eq [of seq ident desc]
    by (simp add: seq_file_def container_bytes_def written_container_def cl packed_payload_def)
next
  assume a: "seq_len c = 0 \<and> length (metadata c) = unat (meta_len c) \<and> meta_len c + 1 \<noteq> 0"
  then have "unat (seq_len c) \<le> INT_MAX"
    by simp
  with a decode_container [of c ind] show
    "decode_seq_to_fasta ind (container_bytes c) = Inr (header_text (metadata c) @ [CHR 0x0A])"
    by (simp add: wrap60.simps)
qed

theorem empty_sequence_witness:
  "write_seq_file ''e'' ''>e'' ''nn-x'' 
   = Inr (''e.seq'', [0x53, 0x45, 0x51, 0x01, 0x01, 2, 0, 0, 0, 0x3E, 0x65, 1, 0, 0, 0, 0, 0, 0, 0, 0]) \<and>
   decode_seq_to_fasta zeroed
     (container_bytes \<lparr>version = 1, meta_len = 2, metadata = [0x3E, 0x65], seq_type = 1,
                       seq_len = 0, payload = []\<rparr>)
   = Inr (''>e'' @ [CHR 0x0A])"
proof -
  let ?c = "\<lparr>version = 1, meta_len = 2, metadata = [0x3E, 0x65], seq_type = 1,
             seq_len = 0, payload = [] :: byte list\<rparr>"
  have "\<forall>ch\<in>set ''nn-x''. \<not> is_base (toupper ch)"
    by code_simp
  then have 1: "length ''nn-x'' \<le> INT_MAX \<and> (\<forall>ch\<in>set ''nn-x''. \<not> is_base (toupper ch))"
    by (simp add: INT_MAX_def)
  have 2: "seq_len ?c = 0 \<and> length (metadata ?c) = unat (meta_len ?c) \<and> meta_len ?c + 1 \<noteq> 0"
    by simp
  have h: "header_text (metadata ?c) = ''>e''"
    by code_simp
  have b: "SEQ_SIGNATURE @ [VERSION] @ le32 (of_nat (length ''>e''))
             @ map byte_of_char (take (unat (of_nat (length ''>e'') :: 32 word)) ''>e'')
             @ [TYPE_DNA] @ le64 0
           = [0x53, 0x45, 0x51, 0x01, 0x01, 2, 0, 0, 0, 0x3E, 0x65, 1, 0, 0, 0, 0, 0, 0, 0, 0]"
    by (simp add: SEQ_SIGNATURE_def VERSION_def TYPE_DNA_def le32_def le64_def byte_of_char_def
        le_bytes_numeral)
  have n: "take 255 (''e'' @ ''.seq'') = ''e.seq''"
    by simp
  note t = empty_sequence [of "''nn-x''" "''e''" "''>e''" ?c zeroed, unfolded h b n]
  have "write_seq_file ''e'' ''>e'' ''nn-x''
      = Inr (''e.seq'', [0x53, 0x45, 0x51, 0x01, 0x01, 2, 0, 0, 0, 0x3E, 0x65, 1, 0, 0, 0, 0, 0, 0, 0, 0])"
    by (rule t [THEN conjunct1, THEN mp, OF 1])
  moreover have "decode_seq_to_fasta zeroed (container_bytes ?c) = Inr (''>e'' @ [CHR 0x0A])"
    by (rule t [THEN conjunct2, THEN mp, OF 2])
  ultimately show ?thesis
    by (rule conjI)
qed

subsection \<open>Malformed input\<close>

lemma emit_loop_failure:
  "emit_loop byte type seqlen shifts bases_written out = Inl e \<Longrightarrow> e = UndefinedBehaviour"
  by (induction shifts arbitrary: bases_written out)
     (auto simp add: bits_to_base_eq Let_def split: if_splits)

lemma payload_loop_failure:
  "payload_loop type seqlen inp bases_written out = Inl e \<Longrightarrow> e = UndefinedBehaviour"
proof (induction inp arbitrary: bases_written out)
  case Nil
  then show ?case by simp
next
  case (Cons byte inp)
  show ?case
  proof (cases "emit_loop byte type seqlen [6, 4, 2, 0] bases_written out")
    case (Inl e')
    with Cons.prems emit_loop_failure [OF Inl] show ?thesis
      by (simp split: if_splits)
  next
    case (Inr r)
    with Cons.prems Cons.IH [of "fst r" "snd r"] show ?thesis
      by (simp split: if_splits prod.splits)
  qed
qed

lemma signature_check:
  "(take 4 inp @ replicate (4 - length (take 4 inp)) 0 \<noteq> SEQ_SIGNATURE)
   = (take 4 inp \<noteq> SEQ_SIGNATURE)"
proof (cases "4 \<le> length inp")
  case True
  then show ?thesis by simp
next
  case False
  then have "length inp = 0 \<or> length inp = 1 \<or> length inp = 2 \<or> length inp = 3"
    by arith
  then show ?thesis
    by (auto simp add: length_Suc_conv SEQ_SIGNATURE_def numeral_eq_Suc)
qed

text \<open>
  C3, as the code has it: the decoder fails, before it prints anything, exactly on the
  inputs whose first four bytes are not the signature, a file of fewer than four bytes
  among them. It has no check for a truncated file: a container with its header fields
  complete (\<open>meta_len\<close> below \<open>0xFFFFFFFF\<close>, \<open>seq_len\<close> at most \<open>INT_MAX\<close>) and its
  payload cut down to any \<open>k\<close> bytes is decoded without a failure, into the bases of the
  payload bytes that are there, at most \<open>seq_len\<close> of them.
\<close>

theorem decode_signature_only:
  "(decode_seq_to_fasta ind inp = Inl InvalidSignature) = (take 4 inp \<noteq> SEQ_SIGNATURE) \<and>
   (length (metadata c) = unat (meta_len c) \<and> meta_len c + 1 \<noteq> 0 \<and> unat (seq_len c) \<le> INT_MAX \<longrightarrow>
      decode_seq_to_fasta ind (container_bytes (c\<lparr>payload := take k (payload c)\<rparr>))
      = Inr (header_text (metadata c) @ [CHR 0x0A]
             @ wrap60 (take (unat (seq_len c)) (payload_bases (seq_type c) (take k (payload c))))))"
proof (intro conjI impI)
  show "(decode_seq_to_fasta ind inp = Inl InvalidSignature) = (take 4 inp \<noteq> SEQ_SIGNATURE)"
  proof (cases "take 4 inp = SEQ_SIGNATURE")
    case False
    then show ?thesis
      using signature_check [of inp] by (simp add: decode_seq_to_fasta_def fread_def Let_def)
  next
    case True
    have "decode_seq_to_fasta ind inp \<noteq> Inl InvalidSignature"
    proof
      assume f: "decode_seq_to_fasta ind inp = Inl InvalidSignature"
      then show False
        using True signature_check [of inp]
        by (auto simp add: decode_seq_to_fasta_def fread_def Let_def
            split: if_splits sum.splits prod.splits dest!: payload_loop_failure)
    qed
    with True show ?thesis by simp
  qed
next
  assume a: "length (metadata c) = unat (meta_len c) \<and> meta_len c + 1 \<noteq> 0
             \<and> unat (seq_len c) \<le> INT_MAX"
  show "decode_seq_to_fasta ind (container_bytes (c\<lparr>payload := take k (payload c)\<rparr>))
      = Inr (header_text (metadata c) @ [CHR 0x0A]
             @ wrap60 (take (unat (seq_len c)) (payload_bases (seq_type c) (take k (payload c)))))"
    using a decode_container [of "c\<lparr>payload := take k (payload c)\<rparr>" ind] by simp
qed

theorem decode_signature_only_witness:
  "decode_seq_to_fasta zeroed [0x53, 0x45, 0x51, 0x02, 0x01] = Inl InvalidSignature \<and>
   decode_seq_to_fasta zeroed [0x53, 0x45, 0x51] = Inl InvalidSignature \<and>
   decode_seq_to_fasta zeroed
     (container_bytes \<lparr>version = 1, meta_len = 2, metadata = [0x3E, 0x61], seq_type = 1,
                       seq_len = 8, payload = [0x1B]\<rparr>)
   = Inr (''>a'' @ [CHR 0x0A] @ ''ACGT'' @ [CHR 0x0A])"
proof -
  let ?c = "\<lparr>version = 1, meta_len = 2, metadata = [0x3E, 0x61], seq_type = 1,
             seq_len = 8, payload = [0x1B, 0x1B :: byte]\<rparr>"
  have 1: "take 4 [0x53, 0x45, 0x51, 0x02, 0x01 :: byte] \<noteq> SEQ_SIGNATURE"
    and 2: "take 4 [0x53, 0x45, 0x51 :: byte] \<noteq> SEQ_SIGNATURE"
    by (simp_all add: SEQ_SIGNATURE_def)
  have 3: "length (metadata ?c) = unat (meta_len ?c) \<and> meta_len ?c + 1 \<noteq> 0
           \<and> unat (seq_len ?c) \<le> INT_MAX"
    by (simp add: INT_MAX_def)
  have h: "header_text (metadata ?c) = ''>a''"
    by code_simp
  have b: "take (unat (seq_len ?c)) (payload_bases (seq_type ?c) (take 1 (payload ?c))) = ''ACGT''"
    by (simp add: payload_bases_def unpack_byte_def base_char_def TYPE_RNA_def)
  have w: "wrap60 ''ACGT'' = ''ACGT'' @ [CHR 0x0A]"
    by (simp add: wrap60.simps)
  have t: "?c\<lparr>payload := take 1 (payload ?c)\<rparr>
           = \<lparr>version = 1, meta_len = 2, metadata = [0x3E, 0x61], seq_type = 1,
              seq_len = 8, payload = [0x1B]\<rparr>"
    by simp
  have "decode_seq_to_fasta zeroed [0x53, 0x45, 0x51, 0x02, 0x01] = Inl InvalidSignature"
    using decode_signature_only [of zeroed "[0x53, 0x45, 0x51, 0x02, 0x01]", THEN conjunct1] 1
    by (rule iffD2)
  moreover have "decode_seq_to_fasta zeroed [0x53, 0x45, 0x51] = Inl InvalidSignature"
    using decode_signature_only [of zeroed "[0x53, 0x45, 0x51]", THEN conjunct1] 2
    by (rule iffD2)
  moreover have "decode_seq_to_fasta zeroed
     (container_bytes \<lparr>version = 1, meta_len = 2, metadata = [0x3E, 0x61], seq_type = 1,
                       seq_len = 8, payload = [0x1B]\<rparr>)
     = Inr (''>a'' @ [CHR 0x0A] @ ''ACGT'' @ [CHR 0x0A])"
    using decode_signature_only [of zeroed "[]" ?c 1, THEN conjunct2, THEN mp, OF 3]
    unfolding h b w t .
  ultimately show ?thesis
    by (intro conjI)
qed

text \<open>
  The claim as the specification states it fails on a container that declares 8 bases and
  holds one payload byte: the decoder returns the four bases of that byte.
\<close>

theorem decode_truncated_payload:
  "decode_seq_to_fasta zeroed
     [0x53, 0x45, 0x51, 0x01, 0x01, 2, 0, 0, 0, 0x3E, 0x61, 1, 8, 0, 0, 0, 0, 0, 0, 0, 0x1B]
   = Inr [CHR ''>'', CHR ''a'', CHR 0x0A, CHR ''A'', CHR ''C'', CHR ''G'', CHR ''T'', CHR 0x0A]"
proof -
  let ?c = "\<lparr>version = 1, meta_len = 2, metadata = [0x3E, 0x61], seq_type = 1,
             seq_len = 8, payload = [0x1B :: byte]\<rparr>"
  have bytes: "container_bytes ?c
      = [0x53, 0x45, 0x51, 0x01, 0x01, 2, 0, 0, 0, 0x3E, 0x61, 1, 8, 0, 0, 0, 0, 0, 0, 0, 0x1B]"
    by (simp add: container_bytes_def SEQ_SIGNATURE_def le32_def le64_def le_bytes_numeral)
  have 1: "length (metadata ?c) = unat (meta_len ?c)" and 2: "meta_len ?c + 1 \<noteq> 0"
    and 3: "unat (seq_len ?c) \<le> INT_MAX"
    by (simp_all add: INT_MAX_def)
  have h: "header_text (metadata ?c) = ''>a''"
    by code_simp
  have b: "take (unat (seq_len ?c)) (payload_bases (seq_type ?c) (payload ?c)) = ''ACGT''"
    by (simp add: payload_bases_def unpack_byte_def base_char_def TYPE_RNA_def)
  have w: "wrap60 ''ACGT'' = ''ACGT'' @ [CHR 0x0A]"
    by (simp add: wrap60.simps)
  show ?thesis
    using decode_container [OF 1 2 3, of zeroed] unfolding bytes h b w by simp
qed

subsection \<open>The scanner\<close>

lemma fgets_Some:
  assumes "fgets 4096 inp = Some (buf, rest)"
  shows "inp = buf @ rest" and "buf \<noteq> []" and "length buf \<le> 4095" and "length rest < length inp"
  using assms by (auto simp add: fgets_def Let_def split: if_splits)

lemma lines_of_None: "fgets 4096 inp = None \<Longrightarrow> lines_of inp = []"
  by (subst lines_of.simps) (simp only: option.case)

lemma lines_of_Some: "fgets 4096 inp = Some (buf, rest) \<Longrightarrow> lines_of inp = buf # lines_of rest"
  by (subst lines_of.simps) (simp only: option.case prod.case)



lemma lines_of_bound: "l \<in> set (lines_of inp) \<Longrightarrow> l \<noteq> [] \<and> length l \<le> 4095"
proof (induction inp rule: lines_of.induct)
  case (1 inp)
  show ?case
  proof (cases "fgets 4096 inp")
    case None
    with "1.prems" show ?thesis
      by (simp add: lines_of_None)
  next
    case (Some p)
    obtain buf rest where p: "p = (buf, rest)"
      by (cases p)
    have f: "fgets 4096 inp = Some (buf, rest)"
      using Some p by simp
    from "1.prems" have "l = buf \<or> l \<in> set (lines_of rest)"
      unfolding lines_of_Some [OF f] by simp
    then show ?thesis
    proof
      assume "l = buf"
      then show ?thesis
        using fgets_Some(2,3) [OF f] by simp
    next
      assume "l \<in> set (lines_of rest)"
      then show ?thesis
        using Some p by (intro "1.IH" [of p buf rest]) simp_all
    qed
  qed
qed







lemma has_lines_pair [simp]: "has_lines (h, b) \<longleftrightarrow> b \<noteq> []"
  by (simp add: has_lines_def)









lemma with_leading_Nil [simp]: "with_leading [] rs = rs"
  by (cases rs) simp_all









subsection \<open>Lines and buffers\<close>


lemma lines_of_Nil [simp]: "lines_of [] = []"
  by (simp add: lines_of_None fgets_def)












lemma buffers_simps [simp]:
  "buffers [] = []" "buffers (l # ls) = lines_of l @ buffers ls"
  "buffers (xs @ ys) = buffers xs @ buffers ys"
  by (simp_all add: buffers_def)















subsection \<open>Records and calls of the writer\<close>




subsection \<open>Header lines with no line after them\<close>




subsection \<open>Metadata\<close>




end
